theory Spec2Isabelle
  imports Complex_Main "HOL-Library.Sublist"
begin

section \<open>Transcript deduplication of prototype/subtitle-service.js\<close>

text \<open>
  The embedding covers the methods \<open>removeDuplicateText\<close>, \<open>removePatternRepeats\<close>,
  \<open>removeSentenceRepeats\<close>, \<open>removeAdjacentDuplicates\<close> and \<open>calculateSimilarity\<close> of the
  class \<open>SubtitleService\<close>.

  A JavaScript string is modelled as a \<^typ>\<open>string\<close>: a list of code units in the range
  0..255, read as Latin-1. On that range the character class \<open>\s\<close> and \<open>trim\<close> recognise the
  same seven code units, and \<open>toLowerCase\<close> maps one code unit to one code unit.
  JavaScript numbers that hold counts and indices are \<^typ>\<open>nat\<close>. A similarity ratio
  is the exact quotient, a \<^typ>\<open>rat\<close>, where the source holds the double nearest to it.
  The two comparisons of the source, \<open>similarity >= 0.85\<close> on a quotient with a denominator
  of at most 20 and \<open>similarity > 0.8\<close> on a quotient with a denominator of at most 5,
  decide on the doubles as they do on the fractions: a quotient equal to 17/20 or 4/5
  rounds to the double of the literal, and any other quotient of these sizes is further
  from the literal than the rounding error.
\<close>

subsection \<open>String and array primitives\<close>

text \<open>The code units matched by \<open>\s\<close> and removed by \<open>trim\<close>: TAB, LF, VT, FF, CR, SPACE, NBSP.\<close>

definition is_space :: "char \<Rightarrow> bool" where
  "is_space c =
     (c = CHR 0x09 \<or> c = CHR 0x0A \<or> c = CHR 0x0B \<or> c = CHR 0x0C \<or> c = CHR 0x0D \<or>
      c = CHR 0x20 \<or> c = CHR 0xA0)"

text \<open>\<open>String.prototype.toLowerCase\<close>: A-Z and the Latin-1 capitals (all of 0xC0..0xDE but the
  multiplication sign 0xD7) move up by 32.\<close>

definition toLowerCase_char :: "char \<Rightarrow> char" where
  "toLowerCase_char c =
     (let n = (of_char c :: nat)
      in if (65 \<le> n \<and> n \<le> 90) \<or> (192 \<le> n \<and> n \<le> 222 \<and> n \<noteq> 215)
         then char_of (n + 32) else c)"

definition toLowerCase :: "string \<Rightarrow> string" where
  "toLowerCase s = map toLowerCase_char s"

text \<open>\<open>String.prototype.trim\<close>.\<close>

definition js_trim :: "string \<Rightarrow> string" where
  "js_trim s = rev (dropWhile is_space (rev (dropWhile is_space s)))"

text \<open>\<open>s.split(/[P]+/)\<close> for a character class \<open>P\<close>: the pieces between the maximal runs of
  \<open>P\<close>, with an empty first piece when \<open>s\<close> starts with a run and an empty last piece when
  it ends with one; the empty string gives one empty piece.\<close>

function js_split :: "(char \<Rightarrow> bool) \<Rightarrow> string \<Rightarrow> string list" where
  "js_split P s =
     (let w = takeWhile (\<lambda>c. \<not> P c) s; r = dropWhile (\<lambda>c. \<not> P c) s
      in if r = [] then [w] else w # js_split P (dropWhile P r))"
  by pat_completeness auto
termination
proof (relation "measure (\<lambda>(P, s). length s)")
  show "wf (measure (\<lambda>(P, s). length s))" by simp
next
  fix P :: "char \<Rightarrow> bool" and s w r :: string
  assume r: "r = dropWhile (\<lambda>c. \<not> P c) s" and ne: "r \<noteq> []"
  from ne obtain c cs where rc: "r = c # cs" by (cases r) auto
  have "P c" using r rc hd_dropWhile[of "\<lambda>c. \<not> P c" s] by (metis list.sel(1) ne)
  then have "dropWhile P r = dropWhile P cs" using rc by simp
  then have "length (dropWhile P r) \<le> length cs" by (simp add: length_dropWhile_le)
  moreover have "length r \<le> length s" using r by (simp add: length_dropWhile_le)
  ultimately have "length (dropWhile P r) < length s" using rc by simp
  then show "((P, dropWhile P r), (P, s)) \<in> measure (\<lambda>(P, s). length s)" by simp
qed

declare js_split.simps [simp del]

text \<open>\<open>s.replace(/\s+/g, ' ')\<close>: every maximal run of white space becomes one space.\<close>

function collapse_ws :: "string \<Rightarrow> string" where
  "collapse_ws [] = []"
| "collapse_ws (c # cs) =
     (if is_space c then CHR '' '' # collapse_ws (dropWhile is_space cs)
      else c # collapse_ws cs)"
  by pat_completeness auto
termination
  by (relation "measure length") (auto simp: le_imp_less_Suc length_dropWhile_le)

text \<open>\<open>Array.prototype.join\<close>.\<close>

fun join :: "string \<Rightarrow> string list \<Rightarrow> string" where
  "join sep [] = []"
| "join sep [x] = x"
| "join sep (x # y # ys) = x @ sep @ join sep (y # ys)"

text \<open>\<open>Array.prototype.slice(a, b)\<close> for non-negative \<open>a\<close> and \<open>b\<close>; both ends are clamped to
  the array.\<close>

definition slice :: "'a list \<Rightarrow> nat \<Rightarrow> nat \<Rightarrow> 'a list" where
  "slice xs a b = take (b - a) (drop a xs)"

text \<open>Reading an array at an index: \<open>undefined\<close> (here \<open>None\<close>) beyond its end.\<close>

definition nth_opt :: "'a list \<Rightarrow> nat \<Rightarrow> 'a option" where
  "nth_opt xs j = (if j < length xs then Some (xs ! j) else None)"

text \<open>\<open>text.split(/\s+/).filter(word => word.length > 0)\<close>, the word stream of a text.\<close>

definition words_of :: "string \<Rightarrow> string list" where
  "words_of text = filter (\<lambda>word. length word > 0) (js_split is_space text)"

text \<open>A \<open>Set\<close> of strings in insertion order, and \<open>Set.prototype.add\<close>.\<close>

definition set_add :: "string list \<Rightarrow> string \<Rightarrow> string list" where
  "set_add s x = (if x \<in> set s then s else s @ [x])"

subsection \<open>calculateSimilarity\<close>

text \<open>The loop \<open>for (let i = 0; i < minLength; i++)\<close> with its counter \<open>matches\<close>.\<close>

function similarity_loop :: "string list \<Rightarrow> string list \<Rightarrow> nat \<Rightarrow> nat \<Rightarrow> nat \<Rightarrow> nat" where
  "similarity_loop words1 words2 minLength i matches =
     (if i < minLength
      then similarity_loop words1 words2 minLength (i + 1)
             (if words1 ! i = words2 ! i then matches + 1 else matches)
      else matches)"
  by pat_completeness auto
termination
  by (relation "measure (\<lambda>(w1, w2, m, i, c). m - i)") auto

declare similarity_loop.simps [simp del]

text \<open>The body of \<open>calculateSimilarity\<close> after the two calls of \<open>split\<close>.\<close>

definition calculateSimilarity_words :: "string list \<Rightarrow> string list \<Rightarrow> rat" where
  "calculateSimilarity_words words1 words2 =
     (let maxLength = max (length words1) (length words2)
      in if maxLength = 0 then 1
         else let minLength = min (length words1) (length words2);
                  matches = similarity_loop words1 words2 minLength 0 0
              in of_nat matches / of_nat maxLength)"

definition calculateSimilarity :: "string \<Rightarrow> string \<Rightarrow> rat" where
  "calculateSimilarity str1 str2 =
     calculateSimilarity_words (js_split is_space str1) (js_split is_space str2)"

subsection \<open>removeAdjacentDuplicates\<close>

text \<open>The loop \<open>for (let i = 0; i < words.length; i++)\<close> with the array \<open>result\<close>.\<close>

function removeAdjacentDuplicates_loop :: "string list \<Rightarrow> nat \<Rightarrow> string list \<Rightarrow> string list" where
  "removeAdjacentDuplicates_loop words i result =
     (if i < length words
      then removeAdjacentDuplicates_loop words (i + 1)
             (if i = 0 \<or> toLowerCase (words ! i) \<noteq> toLowerCase (words ! (i - 1))
              then result @ [words ! i] else result)
      else result)"
  by pat_completeness auto
termination
  by (relation "measure (\<lambda>(ws, i, r). length ws - i)") auto

declare removeAdjacentDuplicates_loop.simps [simp del]

definition removeAdjacentDuplicates :: "string \<Rightarrow> string" where
  "removeAdjacentDuplicates text = join '' '' (removeAdjacentDuplicates_loop (words_of text) 0 [])"

text \<open>The contract of the collapser in the words of the specification: the first token is
  retained, and a later token is dropped exactly when it equals, ignoring case, the
  last token that was retained.\<close>

fun collapse_retained :: "string option \<Rightarrow> string list \<Rightarrow> string list" where
  "collapse_retained retained [] = []"
| "collapse_retained None (w # ws) = w # collapse_retained (Some w) ws"
| "collapse_retained (Some r) (w # ws) =
     (if toLowerCase w = toLowerCase r then collapse_retained (Some r) ws
      else w # collapse_retained (Some w) ws)"

subsection \<open>removePatternRepeats\<close>

text \<open>The loop \<open>for (let j = 0; j < patternLength; j++)\<close> that counts the positions at
  which \<open>pattern\<close> and \<open>nextSegment\<close> agree.\<close>

function matches_loop :: "string list \<Rightarrow> string list \<Rightarrow> nat \<Rightarrow> nat \<Rightarrow> nat \<Rightarrow> nat" where
  "matches_loop pattern nextSegment patternLength j matches =
     (if j < patternLength
      then matches_loop pattern nextSegment patternLength (j + 1)
             (if nth_opt pattern j = nth_opt nextSegment j then matches + 1 else matches)
      else matches)"
  by pat_completeness auto
termination
  by (relation "measure (\<lambda>(p, s, n, j, m). n - j)") auto

declare matches_loop.simps [simp del]

text \<open>The loop \<open>while (checkIndex + patternLength <= words.length)\<close>; it returns the
  final \<open>repeatCount\<close> and \<open>checkIndex\<close>.\<close>

function repeat_loop :: "string list \<Rightarrow> string list \<Rightarrow> nat \<Rightarrow> nat \<Rightarrow> nat \<Rightarrow> nat \<times> nat" where
  "repeat_loop words pattern patternLength repeatCount checkIndex =
     (if checkIndex + patternLength \<le> length words
      then let nextSegment = slice words checkIndex (checkIndex + patternLength);
               matches = matches_loop pattern nextSegment patternLength 0 0;
               similarity = (of_nat matches / of_nat patternLength :: rat)
           in if similarity \<ge> 85 / 100
              then repeat_loop words pattern patternLength (repeatCount + 1)
                     (checkIndex + patternLength)
              else (repeatCount, checkIndex)
      else (repeatCount, checkIndex))"
  by pat_completeness auto
termination
proof (relation "measure (\<lambda>(ws, p, n, r, c). Suc (length ws) - c)")
  show "wf (measure (\<lambda>(ws, p, n, r, c). Suc (length ws) - c))" by simp
next
  fix words pattern :: "string list" and patternLength repeatCount checkIndex :: nat
    and nextSegment :: "string list" and matches :: nat and similarity :: rat
  assume le: "checkIndex + patternLength \<le> length words"
    and sim: "similarity = of_nat matches / of_nat patternLength"
    and ge: "85 / 100 \<le> similarity"
  have "patternLength \<noteq> 0"
  proof
    assume "patternLength = 0"
    with sim ge show False by simp
  qed
  with le show "((words, pattern, patternLength, repeatCount + 1, checkIndex + patternLength),
       (words, pattern, patternLength, repeatCount, checkIndex))
      \<in> measure (\<lambda>(ws, p, n, r, c). Suc (length ws) - c)"
    by simp
qed

declare repeat_loop.simps [simp del]

text \<open>The loop \<open>for (let patternLength = ...; patternLength >= 2; patternLength--)\<close> at the
  cursor \<open>i\<close>. It returns \<open>Some (pattern, checkIndex)\<close> when it leaves through the
  \<open>break\<close> with \<open>foundRepeat = true\<close>, and \<open>None\<close> when it runs out of lengths.\<close>

function pattern_for :: "string list \<Rightarrow> nat \<Rightarrow> nat \<Rightarrow> (string list \<times> nat) option" where
  "pattern_for words i patternLength =
     (if patternLength \<ge> 2
      then if i + patternLength \<ge> length words then pattern_for words i (patternLength - 1)
           else let pattern = slice words i (i + patternLength);
                    (repeatCount, checkIndex) =
                       repeat_loop words pattern patternLength 1 (i + patternLength)
                in if repeatCount \<ge> 2 then Some (pattern, checkIndex)
                   else pattern_for words i (patternLength - 1)
      else None)"
  by pat_completeness auto
termination
  by (relation "measure (\<lambda>(ws, i, n). n)") auto

declare pattern_for.simps [simp del]

lemma repeat_loop_checkIndex:
  "repeat_loop words pattern n r c = (r', c') \<Longrightarrow> c \<le> c'"
proof (induction words pattern n r c rule: repeat_loop.induct)
  case (1 words pattern n r c)
  show ?case
  proof (cases "c + n \<le> length words \<and>
      (85 / 100 :: rat) \<le> of_nat (matches_loop pattern (slice words c (c + n)) n 0 0) / of_nat n")
    case True
    then have "repeat_loop words pattern n (r + 1) (c + n) = (r', c')"
      using "1.prems" by (subst (asm) repeat_loop.simps) (simp add: Let_def)
    with True "1.IH" have "c + n \<le> c'" by simp
    then show ?thesis by simp
  next
    case False
    then have "(r, c) = (r', c')"
      using "1.prems" by (subst (asm) repeat_loop.simps) (auto simp: Let_def split: if_splits)
    then show ?thesis by simp
  qed
qed

lemma pattern_for_advances:
  "pattern_for words i n = Some (p, c) \<Longrightarrow> i < c"
proof (induction words i n rule: pattern_for.induct)
  case (1 words i n)
  show ?case
  proof (cases "2 \<le> n")
    case False
    then show ?thesis using "1.prems" by (subst (asm) pattern_for.simps) simp
  next
    case n2: True
    show ?thesis
    proof (cases "length words \<le> i + n")
      case True
      then show ?thesis
        using "1.prems" "1.IH"(1) n2 by (subst (asm) pattern_for.simps) simp
    next
      case False
      obtain r' c' where rl: "repeat_loop words (slice words i (i + n)) n 1 (i + n) = (r', c')"
        by (cases "repeat_loop words (slice words i (i + n)) n 1 (i + n)") auto
      show ?thesis
      proof (cases "2 \<le> r'")
        case True
        then have "c = c'"
          using "1.prems" n2 False rl by (subst (asm) pattern_for.simps) (simp add: Let_def)
        moreover have "i + n \<le> c'" using rl by (rule repeat_loop_checkIndex)
        ultimately show ?thesis using n2 by simp
      next
        case r: False
        then have "pattern_for words i (n - 1) = Some (p, c)"
          using "1.prems" n2 False rl by (subst (asm) pattern_for.simps) (simp add: Let_def)
        then show ?thesis
          using "1.IH"(2)[OF n2 _ refl _ _ ] False rl r by (simp add: Let_def)
      qed
    qed
  qed
qed

text \<open>The loop \<open>while (i < words.length)\<close> with the array \<open>result\<close>.\<close>

function pattern_while :: "string list \<Rightarrow> nat \<Rightarrow> string list \<Rightarrow> string list" where
  "pattern_while words i result =
     (if i < length words
      then case pattern_for words i (min 20 ((length words - i) div 2)) of
             Some (pattern, checkIndex) \<Rightarrow> pattern_while words checkIndex (result @ pattern)
           | None \<Rightarrow> pattern_while words (i + 1) (result @ [words ! i])
      else result)"
  by pat_completeness auto
termination
proof (relation "measure (\<lambda>(ws, i, r). length ws - i)", goal_cases)
  case 1
  show ?case by simp
next
  case (2 words i result)
  then show ?case by simp
next
  case (3 words i result x2 pattern checkIndex)
  then have "i < checkIndex" by (auto dest: pattern_for_advances)
  with 3 show ?case by simp
qed

declare pattern_while.simps [simp del]

definition removePatternRepeats :: "string \<Rightarrow> string" where
  "removePatternRepeats text =
     (let words = words_of text
      in if length words < 4 then text else join '' '' (pattern_while words 0 []))"

subsection \<open>removeSentenceRepeats\<close>

text \<open>The character class \<open>[.!?]\<close>.\<close>

definition is_terminal :: "char \<Rightarrow> bool" where
  "is_terminal c = (c = CHR ''.'' \<or> c = CHR ''!'' \<or> c = CHR ''?'')"

text \<open>\<open>text.split(/[.!?]+/).filter(s => s.trim().length > 0)\<close>.\<close>

definition sentences_of :: "string \<Rightarrow> string list" where
  "sentences_of text = filter (\<lambda>s. length (js_trim s) > 0) (js_split is_terminal text)"

text \<open>\<open>cleanSentence.split(/\s+/).filter(w => w.length > 2)\<close> with
  \<open>cleanSentence = sentence.trim().toLowerCase()\<close>: the array \<open>words\<close> of the loop body.\<close>

definition content_words :: "string \<Rightarrow> string list" where
  "content_words sentence =
     filter (\<lambda>w. length w > 2) (js_split is_space (toLowerCase (js_trim sentence)))"

text \<open>\<open>words.slice(0, 5).join(' ')\<close>.\<close>

definition fingerprint :: "string \<Rightarrow> string" where
  "fingerprint sentence = join '' '' (slice (content_words sentence) 0 5)"

text \<open>The loop \<open>for (let seenFingerprint of seenSentences)\<close>; its value is \<open>isDuplicate\<close>.\<close>

fun seen_loop :: "string \<Rightarrow> string list \<Rightarrow> bool" where
  "seen_loop fp [] = False"
| "seen_loop fp (seenFingerprint # rest) =
     (if calculateSimilarity fp seenFingerprint > 8 / 10 then True else seen_loop fp rest)"

text \<open>The loop \<open>for (let sentence of sentences)\<close> over the state
  \<open>(uniqueSentences, seenSentences)\<close>.\<close>

fun sentence_loop :: "string list \<Rightarrow> string list \<times> string list \<Rightarrow> string list \<times> string list" where
  "sentence_loop [] state = state"
| "sentence_loop (sentence # rest) (uniqueSentences, seenSentences) =
     (let words = content_words sentence;
          fp = fingerprint sentence;
          isDuplicate = seen_loop fp seenSentences
      in if \<not> isDuplicate \<and> length words \<ge> 3
         then sentence_loop rest (uniqueSentences @ [js_trim sentence], set_add seenSentences fp)
         else sentence_loop rest (uniqueSentences, seenSentences))"

definition removeSentenceRepeats :: "string \<Rightarrow> string" where
  "removeSentenceRepeats text =
     (let sentences = sentences_of text
      in if length sentences \<le> 1 then text
         else let uniqueSentences = fst (sentence_loop sentences ([], []))
              in join ''. '' uniqueSentences @ (if length uniqueSentences > 0 then ''.'' else []))"

subsection \<open>removeDuplicateText\<close>

text \<open>The argument is an array of lines; \<open>null\<close> and \<open>undefined\<close>, which the guard
  \<open>!textLines\<close> also sends to the empty string, are not arrays and have no value here.\<close>

definition removeDuplicateText :: "string list \<Rightarrow> string" where
  "removeDuplicateText textLines =
     (if length textLines = 0 then []
      else let fullText = js_trim (collapse_ws (join '' '' textLines))
           in if fullText = [] then []
              else let cleanText0 = js_trim (collapse_ws fullText);
                       cleanText1 = removePatternRepeats cleanText0;
                       cleanText2 = removeSentenceRepeats cleanText1;
                       cleanText3 = removeAdjacentDuplicates cleanText2
                   in cleanText3)"

subsection \<open>The pattern stage in the words of the specification\<close>

text \<open>The positional match ratio of a block against the pattern: the positions at which
  the two agree, divided by the length of the pattern.\<close>

definition match_ratio :: "string list \<Rightarrow> string list \<Rightarrow> rat" where
  "match_ratio pattern block =
     of_nat (length (filter (\<lambda>(x, y). x = y) (zip pattern block))) / of_nat (length pattern)"

text \<open>The number of consecutive blocks of the pattern's length, from the front of \<open>rest\<close>,
  whose match ratio against the pattern is at least 0.85.\<close>

function count_blocks :: "string list \<Rightarrow> string list \<Rightarrow> nat" where
  "count_blocks pattern rest =
     (if length pattern \<le> length rest \<and> match_ratio pattern (take (length pattern) rest) \<ge> 85 / 100
      then Suc (count_blocks pattern (drop (length pattern) rest))
      else 0)"
  by pat_completeness auto
termination
proof (relation "measure (\<lambda>(p, r). length r)", goal_cases)
  case 1
  show ?case by simp
next
  case (2 pattern rest)
  then have "pattern \<noteq> []" by (auto simp: match_ratio_def)
  then have "0 < length pattern" by simp
  moreover from 2 have "length pattern \<le> length rest" by simp
  ultimately have "length rest - length pattern < length rest" by arith
  then show ?case by simp
qed

declare count_blocks.simps [simp del]

text \<open>The candidate lengths at a cursor with \<open>remaining\<close> tokens ahead, longest first:
  from \<open>min(20, floor(remaining / 2))\<close> down to 2.\<close>

definition candidate_lengths :: "nat \<Rightarrow> nat list" where
  "candidate_lengths remaining = rev [2 ..< Suc (min 20 (remaining div 2))]"

text \<open>The first candidate length whose pattern, the next \<open>L\<close> tokens, occurs at least twice
  in all: once itself and at least once more in the blocks that follow.\<close>

definition first_repeat :: "string list \<Rightarrow> nat option" where
  "first_repeat ws =
     find (\<lambda>L. 1 + count_blocks (take L ws) (drop L ws) \<ge> 2) (candidate_lengths (length ws))"

text \<open>The single forward pass over the tokens from the cursor on: a repeating pattern is
  emitted once and the cursor moves past all of its matched repeats; otherwise the
  token at the cursor is emitted and the cursor moves by one.\<close>

function pattern_spec :: "string list \<Rightarrow> string list" where
  "pattern_spec ws =
     (if ws = [] then []
      else case first_repeat ws of
             Some L \<Rightarrow> take L ws @ pattern_spec (drop (L * (1 + count_blocks (take L ws) (drop L ws))) ws)
           | None \<Rightarrow> hd ws # pattern_spec (tl ws))"
  by pat_completeness auto
termination
proof (relation "measure length", goal_cases)
  case 1
  show ?case by simp
next
  case (2 ws)
  then show ?case by (cases ws) simp_all
next
  case (3 ws L)
  then have "L \<in> set (candidate_lengths (length ws))"
    by (auto simp: first_repeat_def find_Some_iff)
  then have "2 \<le> L" by (auto simp: candidate_lengths_def)
  then have "0 < L * (1 + count_blocks (take L ws) (drop L ws))" by simp
  with 3 show ?case by simp
qed

declare pattern_spec.simps [simp del]

subsection \<open>The sentence stage's decisions, from the fingerprints alone\<close>

text \<open>The keep (\<open>True\<close>) or drop (\<open>False\<close>) decision for each sentence, computed from
  nothing but each sentence's fingerprint and whether it has at least three content
  words: a sentence is kept exactly when it has enough content words and its
  fingerprint scores at most 0.8 against the fingerprint of every sentence kept before
  it. The second argument holds the fingerprints kept so far.\<close>

fun fingerprint_keep :: "(string \<times> bool) list \<Rightarrow> string list \<Rightarrow> bool list" where
  "fingerprint_keep [] kept = []"
| "fingerprint_keep ((fp, enough) # rest) kept =
     (let keep = (enough \<and> \<not> list_ex (\<lambda>k. calculateSimilarity fp k > 8 / 10) kept)
      in keep # fingerprint_keep rest (if keep then kept @ [fp] else kept))"

section \<open>Lemmas about the primitives and the loops\<close>

subsection \<open>The collapser loop and its contract\<close>

lemma removeAdjacentDuplicates_loop_retained:
  "i \<le> length ws \<Longrightarrow>
   (if i = 0 then retained = None
    else \<exists>r. retained = Some r \<and> toLowerCase r = toLowerCase (ws ! (i - 1))) \<Longrightarrow>
   removeAdjacentDuplicates_loop ws i result = result @ collapse_retained retained (drop i ws)"
proof (induction ws i result arbitrary: retained rule: removeAdjacentDuplicates_loop.induct)
  case (1 ws i result)
  show ?case
  proof (cases "i < length ws")
    case False
    with "1.prems" show ?thesis
      by (subst removeAdjacentDuplicates_loop.simps) simp
  next
    case True
    then have dr: "drop i ws = ws ! i # drop (Suc i) ws"
      by (simp add: Cons_nth_drop_Suc)
    define R where "R = (if i = 0 \<or> toLowerCase (ws ! i) \<noteq> toLowerCase (ws ! (i - 1))
                         then result @ [ws ! i] else result)"
    have step: "removeAdjacentDuplicates_loop ws i result = removeAdjacentDuplicates_loop ws (i + 1) R"
      using True by (subst removeAdjacentDuplicates_loop.simps) (simp add: R_def)
    have IH: "removeAdjacentDuplicates_loop ws (i + 1) R = R @ collapse_retained ret (drop (i + 1) ws)"
      if "\<exists>r. ret = Some r \<and> toLowerCase r = toLowerCase (ws ! i)" for ret
      using "1.IH"[OF True, of ret] True that by (simp add: R_def)
    show ?thesis
    proof (cases "i = 0 \<or> toLowerCase (ws ! i) \<noteq> toLowerCase (ws ! (i - 1))")
      case keep: True
      have "collapse_retained retained (drop i ws)
            = ws ! i # collapse_retained (Some (ws ! i)) (drop (Suc i) ws)"
        using keep "1.prems"(2) dr by (cases retained) (auto split: if_splits)
      moreover have "R = result @ [ws ! i]" using keep by (simp add: R_def)
      ultimately show ?thesis
        using step IH[of "Some (ws ! i)"] by simp
    next
      case drop: False
      then obtain r where r: "retained = Some r" "toLowerCase r = toLowerCase (ws ! (i - 1))"
        using "1.prems"(2) by auto
      have "collapse_retained retained (drop i ws)
            = collapse_retained retained (drop (Suc i) ws)"
        using drop r dr by simp
      moreover have "R = result" using drop by (simp add: R_def)
      ultimately show ?thesis
        using step IH[of retained] r drop by simp
    qed
  qed
qed

lemma collapse_retained_first: "take 1 (collapse_retained None ws) = take 1 ws"
  by (cases ws) simp_all

subsection \<open>Splitting, trimming and joining\<close>

lemma js_split_last:
  "dropWhile (\<lambda>c. \<not> P c) s = [] \<Longrightarrow> js_split P s = [takeWhile (\<lambda>c. \<not> P c) s]"
  by (subst js_split.simps) (simp only: Let_def simp_thms if_True)

lemma js_split_more:
  "dropWhile (\<lambda>c. \<not> P c) s \<noteq> [] \<Longrightarrow>
   js_split P s = takeWhile (\<lambda>c. \<not> P c) s # js_split P (dropWhile P (dropWhile (\<lambda>c. \<not> P c) s))"
  by (subst js_split.simps) (simp only: Let_def simp_thms if_False)

lemma js_split_pieces:
  "w \<in> set (js_split P s) \<Longrightarrow> c \<in> set w \<Longrightarrow> \<not> P c"
proof (induction P s rule: js_split.induct)
  case (1 P s)
  show ?case
  proof (cases "dropWhile (\<lambda>c. \<not> P c) s = []")
    case True
    then have "w = takeWhile (\<lambda>c. \<not> P c) s"
      using "1.prems"(1) js_split_last[OF True] by simp
    then show ?thesis using "1.prems"(2) by (auto dest: set_takeWhileD)
  next
    case False
    then have "w = takeWhile (\<lambda>c. \<not> P c) s \<or>
               w \<in> set (js_split P (dropWhile P (dropWhile (\<lambda>c. \<not> P c) s)))"
      using "1.prems"(1) js_split_more[OF False] by simp
    then show ?thesis
    proof
      assume "w = takeWhile (\<lambda>c. \<not> P c) s"
      then show ?thesis using "1.prems"(2) by (auto dest: set_takeWhileD)
    next
      assume "w \<in> set (js_split P (dropWhile P (dropWhile (\<lambda>c. \<not> P c) s)))"
      then show ?thesis using "1.IH"[OF refl refl False] "1.prems"(2) by simp
    qed
  qed
qed

lemma set_js_trim: "set (js_trim s) \<subseteq> set s"
  unfolding js_trim_def by (auto dest!: set_dropWhileD)

lemma set_join: "set (join sep xs) \<subseteq> set sep \<union> \<Union> (set ` set xs)"
  by (induction sep xs rule: join.induct) auto

lemma sentence_loop_kept:
  "set (fst (sentence_loop ss (u, seen))) \<subseteq> set u \<union> js_trim ` set ss"
proof (induction ss arbitrary: u seen)
  case Nil
  show ?case by simp
next
  case (Cons s ss)
  show ?case
    using Cons.IH[of "u @ [js_trim s]" "set_add seen (fingerprint s)"] Cons.IH[of u seen]
    by (auto simp: Let_def)
qed

lemma removeSentenceRepeats_chars:
  assumes "2 \<le> length (sentences_of text)" and "is_terminal c" and "c \<noteq> CHR ''.''"
  shows "c \<notin> set (removeSentenceRepeats text)"
proof
  assume c: "c \<in> set (removeSentenceRepeats text)"
  define kept where "kept = fst (sentence_loop (sentences_of text) ([], []))"
  have out: "removeSentenceRepeats text = join ''. '' kept @ (if length kept > 0 then ''.'' else [])"
    using assms(1) by (simp add: removeSentenceRepeats_def Let_def kept_def)
  have "c \<noteq> CHR '' ''" using assms(2) by (auto simp: is_terminal_def)
  with c out assms(3) have "c \<in> set (join ''. '' kept)" by (auto split: if_splits)
  with set_join[of "''. ''" kept] assms(3) \<open>c \<noteq> CHR '' ''\<close>
  obtain k where k: "k \<in> set kept" "c \<in> set k" by auto
  from k(1) sentence_loop_kept[of "sentences_of text" "[]" "[]"]
  obtain s where s: "s \<in> set (sentences_of text)" "k = js_trim s" by (auto simp: kept_def)
  from s(1) have "s \<in> set (js_split is_terminal text)" by (simp add: sentences_of_def)
  moreover from k(2) s(2) set_js_trim[of s] have "c \<in> set s" by auto
  ultimately have "\<not> is_terminal c" by (rule js_split_pieces)
  with assms(2) show False by simp
qed

subsection \<open>The similarity loop\<close>

lemma similarity_loop_count:
  "i \<le> m \<Longrightarrow> similarity_loop a b m i c = c + length (filter (\<lambda>k. a ! k = b ! k) [i..<m])"
proof (induction a b m i c rule: similarity_loop.induct)
  case (1 a b m i c)
  show ?case
  proof (cases "i < m")
    case False
    then show ?thesis by (subst similarity_loop.simps) simp
  next
    case True
    then have "[i..<m] = i # [Suc i..<m]" by (simp add: upt_conv_Cons)
    then show ?thesis
      using True "1.IH" by (subst similarity_loop.simps) simp
  qed
qed

lemma similarity_loop_card:
  "similarity_loop a b m 0 0 = card {i. i < m \<and> a ! i = b ! i}"
proof -
  have "length (filter (\<lambda>k. a ! k = b ! k) [0..<m]) = card ({k. a ! k = b ! k} \<inter> set [0..<m])"
    by (rule distinct_length_filter) simp
  also have "{k. a ! k = b ! k} \<inter> set [0..<m] = {i. i < m \<and> a ! i = b ! i}" by auto
  finally show ?thesis by (simp add: similarity_loop_count)
qed

subsection \<open>The sentence loop\<close>

lemma sentence_loop_append:
  "sentence_loop (xs @ ys) st = sentence_loop ys (sentence_loop xs st)"
proof (induction xs arbitrary: st)
  case Nil
  show ?case by simp
next
  case (Cons x xs)
  obtain u seen where st: "st = (u, seen)" by (cases st)
  show ?case unfolding st using Cons.IH by (simp add: Let_def)
qed

lemma seen_loop_iff:
  "seen_loop fp seen = list_ex (\<lambda>k. calculateSimilarity fp k > 8 / 10) seen"
  by (induction seen) auto

lemma js_split_nonempty: "js_split P s \<noteq> []"
  by (cases "dropWhile (\<lambda>c. \<not> P c) s = []") (simp_all add: js_split_last js_split_more)

lemma calculateSimilarity_self: "calculateSimilarity f f = 1"
proof -
  define a where "a = js_split is_space f"
  have "a \<noteq> []" unfolding a_def by (rule js_split_nonempty)
  then have "card {i. i < length a \<and> a ! i = a ! i} = length a" by simp
  with \<open>a \<noteq> []\<close> show ?thesis
    by (simp add: calculateSimilarity_def calculateSimilarity_words_def Let_def
        similarity_loop_card a_def[symmetric])
qed

lemma seen_loop_member: "fp \<in> set seen \<Longrightarrow> seen_loop fp seen"
  by (induction seen) (auto simp: calculateSimilarity_self)

lemma dropWhile_js_trim: "dropWhile is_space (js_trim s) = js_trim s"
proof (cases "dropWhile is_space s")
  case Nil
  then have "js_trim s = []" unfolding js_trim_def by (simp only: rev.simps dropWhile.simps)
  then show ?thesis by simp
next
  case (Cons c cs)
  then have c: "\<not> is_space c" using hd_dropWhile[of is_space s] by (metis list.sel(1) list.distinct(1))
  have "js_trim s = rev (dropWhile is_space (rev cs @ [c]))" by (simp add: js_trim_def Cons)
  also have "\<dots> = c # rev (dropWhile is_space (rev cs))"
    using c by (simp add: dropWhile_append3)
  finally show ?thesis using c by simp
qed

lemma js_trim_idem: "js_trim (js_trim s) = js_trim s"
proof -
  have "js_trim (js_trim s) = rev (dropWhile is_space (rev (js_trim s)))"
    by (simp add: dropWhile_js_trim js_trim_def[of "js_trim s"])
  also have "rev (js_trim s) = dropWhile is_space (rev (dropWhile is_space s))"
    by (simp add: js_trim_def)
  also have "rev (dropWhile is_space (dropWhile is_space (rev (dropWhile is_space s)))) = js_trim s"
    by (simp add: js_trim_def)
  finally show ?thesis .
qed

lemma fingerprint_js_trim: "fingerprint (js_trim s) = fingerprint s"
  by (simp add: fingerprint_def content_words_def js_trim_idem)

lemma sentence_loop_fingerprints:
  "fingerprint ` set u0 \<subseteq> set seen0 \<Longrightarrow> sentence_loop ss (u0, seen0) = (u, seen) \<Longrightarrow>
   fingerprint ` set u \<subseteq> set seen"
proof (induction ss arbitrary: u0 seen0)
  case Nil
  then show ?case by simp
next
  case (Cons s ss)
  show ?case
  proof (cases "\<not> seen_loop (fingerprint s) seen0 \<and> 3 \<le> length (content_words s)")
    case True
    then have "sentence_loop ss (u0 @ [js_trim s], set_add seen0 (fingerprint s)) = (u, seen)"
      using Cons.prems(2) by (simp add: Let_def)
    moreover have "fingerprint ` set (u0 @ [js_trim s]) \<subseteq> set (set_add seen0 (fingerprint s))"
      using Cons.prems(1) by (auto simp: set_add_def fingerprint_js_trim)
    ultimately show ?thesis by (rule Cons.IH[rotated])
  next
    case False
    then have "sentence_loop ss (u0, seen0) = (u, seen)"
      using Cons.prems(2) by (auto simp: Let_def)
    with Cons.prems(1) show ?thesis by (rule Cons.IH)
  qed
qed

lemma sentence_loop_fingerprint_keep:
  "fst (sentence_loop ss (u, seen)) =
     u @ map (js_trim \<circ> fst)
           (filter snd (zip ss (fingerprint_keep
              (map (\<lambda>s. (fingerprint s, 3 \<le> length (content_words s))) ss) seen)))"
proof (induction ss arbitrary: u seen)
  case Nil
  show ?case by simp
next
  case (Cons s ss)
  show ?case
  proof (cases "\<not> seen_loop (fingerprint s) seen \<and> 3 \<le> length (content_words s)")
    case True
    then have "fingerprint s \<notin> set seen" using seen_loop_member by blast
    then have "set_add seen (fingerprint s) = seen @ [fingerprint s]" by (simp add: set_add_def)
    with True show ?thesis
      using Cons.IH[of "u @ [js_trim s]" "seen @ [fingerprint s]"]
      by (simp add: Let_def seen_loop_iff)
  next
    case False
    then show ?thesis
      using Cons.IH[of u seen] by (auto simp: Let_def seen_loop_iff)
  qed
qed

subsection \<open>The pattern loops and the forward pass of the specification\<close>

lemma matches_loop_count:
  "j \<le> n \<Longrightarrow> matches_loop p s n j m
     = m + length (filter (\<lambda>k. nth_opt p k = nth_opt s k) [j..<n])"
proof (induction p s n j m rule: matches_loop.induct)
  case (1 p s n j m)
  show ?case
  proof (cases "j < n")
    case False
    then show ?thesis by (subst matches_loop.simps) simp
  next
    case True
    then have "[j..<n] = j # [Suc j..<n]" by (simp add: upt_conv_Cons)
    then show ?thesis
      using True "1.IH" by (subst matches_loop.simps) simp
  qed
qed

lemma filter_zip_upt:
  "length p = length s \<Longrightarrow>
   length (filter (\<lambda>(x, y). x = y) (zip p s))
     = length (filter (\<lambda>k. nth_opt p k = nth_opt s k) [0..<length p])"
proof (induction p s rule: list_induct2)
  case Nil
  show ?case by simp
next
  case (Cons x xs y ys)
  have "[0..<length (x # xs)] = 0 # map Suc [0..<length xs]"
    by (simp add: upt_conv_Cons map_Suc_upt del: upt_Suc)
  then show ?case using Cons by (simp add: filter_map o_def nth_opt_def)
qed

lemma matches_loop_ratio:
  "length p = n \<Longrightarrow> length s = n \<Longrightarrow>
   (of_nat (matches_loop p s n 0 0) / of_nat n :: rat) = match_ratio p s"
  by (simp add: matches_loop_count match_ratio_def filter_zip_upt)

lemma repeat_loop_count_blocks:
  "length pattern = n \<Longrightarrow>
   repeat_loop ws pattern n r c
     = (r + count_blocks pattern (drop c ws), c + n * count_blocks pattern (drop c ws))"
proof (induction ws pattern n r c rule: repeat_loop.induct)
  case (1 ws pattern n r c)
  have sl: "slice ws c (c + n) = take n (drop c ws)" by (simp add: slice_def)
  show ?case
  proof (cases "c + n \<le> length ws")
    case False
    then have "count_blocks pattern (drop c ws) = 0"
      using "1.prems" by (subst count_blocks.simps) (auto simp: match_ratio_def)
    with False show ?thesis by (subst repeat_loop.simps) simp
  next
    case le: True
    then have len: "length (take n (drop c ws)) = n" by simp
    have ratio: "(of_nat (matches_loop pattern (slice ws c (c + n)) n 0 0) / of_nat n :: rat)
        = match_ratio pattern (take n (drop c ws))"
      unfolding sl using "1.prems" len by (rule matches_loop_ratio)
    have step: "repeat_loop ws pattern n r c =
        (if (85 / 100 :: rat) \<le> match_ratio pattern (take n (drop c ws))
         then repeat_loop ws pattern n (r + 1) (c + n) else (r, c))"
      using le by (subst repeat_loop.simps) (simp add: Let_def ratio[symmetric])
    show ?thesis
    proof (cases "(85 / 100 :: rat) \<le> match_ratio pattern (take n (drop c ws))")
      case True
      have cb: "count_blocks pattern (drop c ws) = Suc (count_blocks pattern (drop (c + n) ws))"
        using True le "1.prems" by (subst count_blocks.simps) (simp add: add.commute)
      have "repeat_loop ws pattern n (r + 1) (c + n)
          = (r + 1 + count_blocks pattern (drop (c + n) ws),
             c + n + n * count_blocks pattern (drop (c + n) ws))"
        using "1.IH"[OF le refl refl refl _ "1.prems"] True ratio by simp
      moreover have "repeat_loop ws pattern n r c = repeat_loop ws pattern n (r + 1) (c + n)"
        using step True by simp
      ultimately show ?thesis by (simp add: cb)
    next
      case False
      then have "count_blocks pattern (drop c ws) = 0"
        using "1.prems" by (subst count_blocks.simps) simp
      moreover have "repeat_loop ws pattern n r c = (r, c)"
        using step False by simp
      ultimately show ?thesis by simp
    qed
  qed
qed

lemma pattern_for_find:
  "i + 2 * n \<le> length ws \<Longrightarrow> i < length ws \<Longrightarrow>
   pattern_for ws i n =
     (case find (\<lambda>L. 1 + count_blocks (take L (drop i ws)) (drop L (drop i ws)) \<ge> 2)
             (rev [2 ..< Suc n]) of
        Some L \<Rightarrow> Some (take L (drop i ws),
                    i + L * (1 + count_blocks (take L (drop i ws)) (drop L (drop i ws))))
      | None \<Rightarrow> None)"
proof (induction ws i n rule: pattern_for.induct)
  case (1 ws i n)
  show ?case
  proof (cases "2 \<le> n")
    case False
    then show ?thesis by (subst pattern_for.simps) simp
  next
    case n2: True
    then have guard: "\<not> length ws \<le> i + n" using "1.prems" by simp
    have lenp: "length (slice ws i (i + n)) = n" using "1.prems" by (simp add: slice_def)
    have sl: "slice ws i (i + n) = take n (drop i ws)" by (simp add: slice_def)
    have dr: "drop (i + n) ws = drop n (drop i ws)" by (simp add: add.commute)
    have rl: "repeat_loop ws (slice ws i (i + n)) n 1 (i + n)
        = (1 + count_blocks (take n (drop i ws)) (drop n (drop i ws)),
           i + n + n * count_blocks (take n (drop i ws)) (drop n (drop i ws)))"
      using repeat_loop_count_blocks[OF lenp, of ws 1 "i + n"] by (simp add: sl dr)
    have up: "rev [2 ..< Suc n] = n # rev [2 ..< Suc (n - 1)]" using n2 by simp
    show ?thesis
    proof (cases "2 \<le> 1 + count_blocks (take n (drop i ws)) (drop n (drop i ws))")
      case True
      then have "pattern_for ws i n = Some (take n (drop i ws),
          i + n + n * count_blocks (take n (drop i ws)) (drop n (drop i ws)))"
        using n2 guard rl by (subst pattern_for.simps) (simp add: Let_def sl)
      then show ?thesis using True n2 by (simp add: up del: upt_Suc)
    next
      case False
      then have "pattern_for ws i n = pattern_for ws i (n - 1)"
        using n2 guard rl by (subst pattern_for.simps) (simp add: Let_def)
      moreover have "pattern_for ws i (n - 1) =
        (case find (\<lambda>L. 1 + count_blocks (take L (drop i ws)) (drop L (drop i ws)) \<ge> 2)
             (rev [2 ..< Suc (n - 1)]) of
          Some L \<Rightarrow> Some (take L (drop i ws),
                    i + L * (1 + count_blocks (take L (drop i ws)) (drop L (drop i ws))))
        | None \<Rightarrow> None)"
        using "1.IH"(2)[OF n2 guard refl rl[symmetric] refl] False "1.prems" by simp
      ultimately show ?thesis using False n2 by (simp add: up del: upt_Suc)
    qed
  qed
qed

lemma first_repeat_drop:
  "first_repeat (drop i ws) =
     find (\<lambda>L. 1 + count_blocks (take L (drop i ws)) (drop L (drop i ws)) \<ge> 2)
       (rev [2 ..< Suc (min 20 ((length ws - i) div 2))])"
  by (simp add: first_repeat_def candidate_lengths_def del: upt_Suc)

lemma pattern_while_spec:
  "pattern_while ws i result = result @ pattern_spec (drop i ws)"
proof (induction ws i result rule: pattern_while.induct)
  case (1 ws i result)
  show ?case
  proof (cases "i < length ws")
    case False
    then have "pattern_spec (drop i ws) = []" by (subst pattern_spec.simps) simp
    with False show ?thesis by (subst pattern_while.simps) simp
  next
    case True
    define n where "n = min 20 ((length ws - i) div 2)"
    have bound: "i + 2 * n \<le> length ws" using True by (simp add: n_def)
    have ne: "drop i ws \<noteq> []" using True by simp
    note pf = pattern_for_find[OF bound True]
    show ?thesis
    proof (cases "first_repeat (drop i ws)")
      case None
      then have "pattern_for ws i n = None"
        using pf by (simp add: first_repeat_drop n_def del: upt_Suc)
      then have "pattern_while ws i result = pattern_while ws (i + 1) (result @ [ws ! i])"
        using True by (subst pattern_while.simps) (simp add: n_def)
      also have "\<dots> = (result @ [ws ! i]) @ pattern_spec (drop (i + 1) ws)"
        using "1.IH"(1)[OF True] \<open>pattern_for ws i n = None\<close> by (simp add: n_def)
      also have "pattern_spec (drop i ws) = hd (drop i ws) # pattern_spec (tl (drop i ws))"
        using ne None by (subst pattern_spec.simps) simp
      then have "(result @ [ws ! i]) @ pattern_spec (drop (i + 1) ws)
          = result @ pattern_spec (drop i ws)"
        using True by (simp add: hd_drop_conv_nth drop_Suc tl_drop)
      finally show ?thesis .
    next
      case (Some L)
      define k where "k = count_blocks (take L (drop i ws)) (drop L (drop i ws))"
      have pfs: "pattern_for ws i n = Some (take L (drop i ws), i + L * (1 + k))"
        using pf Some by (simp add: first_repeat_drop n_def k_def del: upt_Suc)
      then have "pattern_while ws i result
          = pattern_while ws (i + L * (1 + k)) (result @ take L (drop i ws))"
        using True by (subst pattern_while.simps) (simp add: n_def)
      also have "\<dots> = (result @ take L (drop i ws)) @ pattern_spec (drop (i + L * (1 + k)) ws)"
        using "1.IH"(2)[OF True _ refl] pfs by (simp add: n_def)
      also have "pattern_spec (drop i ws)
          = take L (drop i ws) @ pattern_spec (drop (L * (1 + k)) (drop i ws))"
        using ne Some by (subst pattern_spec.simps) (simp add: k_def)
      then have "(result @ take L (drop i ws)) @ pattern_spec (drop (i + L * (1 + k)) ws)
          = result @ pattern_spec (drop i ws)"
        by (simp add: add.commute)
      finally show ?thesis .
    qed
  qed
qed

subsection \<open>Words, and texts rebuilt from words\<close>

text \<open>A word of a word stream: not empty and free of white space.\<close>

definition is_word :: "string \<Rightarrow> bool" where
  "is_word w = (w \<noteq> [] \<and> (\<forall>c\<in>set w. \<not> is_space c))"

lemma words_of_is_word: "list_all is_word (words_of text)"
  by (auto simp: words_of_def list_all_iff is_word_def dest: js_split_pieces)

lemma js_split_word_only: "\<forall>c\<in>set w. \<not> P c \<Longrightarrow> js_split P w = [w]"
  by (simp add: js_split_last)

lemma js_split_word_sep:
  assumes "\<forall>c\<in>set w. \<not> P c" and "P c0"
  shows "js_split P (w @ c0 # rest) = w # js_split P (dropWhile P rest)"
proof -
  have t: "takeWhile (\<lambda>c. \<not> P c) (w @ c0 # rest) = w"
    using assms by (simp add: takeWhile_append2)
  have d: "dropWhile (\<lambda>c. \<not> P c) (w @ c0 # rest) = c0 # rest"
    using assms by (simp add: dropWhile_append2)
  have "dropWhile (\<lambda>c. \<not> P c) (w @ c0 # rest) \<noteq> []" by (simp only: d) simp
  from js_split_more[OF this] show ?thesis using assms(2) by (simp only: t d) simp
qed

lemma join_Cons: "join sep (x # xs) = (if xs = [] then x else x @ sep @ join sep xs)"
  by (cases xs) simp_all

lemma join_words_head:
  "list_all is_word (w # ws) \<Longrightarrow>
   join '' '' (w # ws) \<noteq> [] \<and> \<not> is_space (hd (join '' '' (w # ws)))"
  by (cases w) (auto simp: join_Cons is_word_def)

lemma words_of_Nil: "words_of [] = []"
  by (simp add: words_of_def js_split_last)

lemma words_of_join: "list_all is_word ws \<Longrightarrow> words_of (join '' '' ws) = ws"
proof (induction ws)
  case Nil
  show ?case by (simp add: words_of_Nil)
next
  case (Cons w ws)
  then have w: "w \<noteq> []" "\<forall>c\<in>set w. \<not> is_space c" by (auto simp: is_word_def)
  show ?case
  proof (cases ws)
    case Nil
    with w show ?thesis by (simp add: words_of_def js_split_word_only)
  next
    case (Cons y ys)
    define J where "J = join '' '' ws"
    have J: "J \<noteq> []" "\<not> is_space (hd J)"
      using join_words_head[of y ys] Cons.prems Cons by (auto simp: J_def)
    then have dw: "dropWhile is_space J = J" by (cases J) auto
    have sp: "is_space CHR '' ''" by (simp add: is_space_def)
    have "join '' '' (w # ws) = w @ CHR '' '' # J" using Cons by (simp add: J_def)
    then have "js_split is_space (join '' '' (w # ws)) = w # js_split is_space J"
      using js_split_word_sep[OF w(2) sp, of J] by (simp add: dw)
    then have "words_of (join '' '' (w # ws)) = w # words_of J"
      using w(1) by (simp add: words_of_def)
    also have "words_of J = ws" using Cons.IH Cons.prems by (simp add: J_def)
    finally show ?thesis .
  qed
qed

lemma length_join_Cons_le: "length (join sep (x # xs)) \<le> length x + length sep + length (join sep xs)"
  by (simp add: join_Cons)

lemma length_join_js_split:
  "length (join [c0] (filter (\<lambda>w. length w > 0) (js_split P s))) \<le> length s"
proof (induction P s rule: js_split.induct)
  case (1 P s)
  define w where "w = takeWhile (\<lambda>c. \<not> P c) s"
  define D where "D = dropWhile (\<lambda>c. \<not> P c) s"
  have len: "length s = length w + length D"
    unfolding w_def D_def by (metis length_append takeWhile_dropWhile_id)
  show ?case
  proof (cases "D = []")
    case True
    then have "js_split P s = [w]" unfolding D_def w_def by (rule js_split_last)
    then show ?thesis using len by simp
  next
    case False
    define s' where "s' = dropWhile P D"
    have sp: "js_split P s = w # js_split P s'"
      using js_split_more[of P s] False by (simp add: D_def w_def s'_def)
    from False obtain c cs where D: "D = c # cs" by (cases D) auto
    have "P c" using hd_dropWhile[of "\<lambda>c. \<not> P c" s] False D by (simp add: D_def)
    then have "s' = dropWhile P cs" by (simp add: s'_def D)
    then have "length s' \<le> length cs" by (simp add: length_dropWhile_le)
    then have lens: "length w + 1 + length s' \<le> length s" using len D by simp
    have IH: "length (join [c0] (filter (\<lambda>w. length w > 0) (js_split P s'))) \<le> length s'"
      using "1.IH"[OF w_def D_def] False by (simp add: s'_def D_def)
    show ?thesis
    proof (cases "w = []")
      case True
      then show ?thesis using sp IH lens by simp
    next
      case False
      have "length (join [c0] (filter (\<lambda>w. length w > 0) (js_split P s)))
          \<le> length w + 1 + length (join [c0] (filter (\<lambda>w. length w > 0) (js_split P s')))"
        using False sp length_join_Cons_le[of "[c0]" w] by simp
      with IH lens show ?thesis by simp
    qed
  qed
qed

lemma length_join_words_of: "length (join '' '' (words_of text)) \<le> length text"
  unfolding words_of_def by (rule length_join_js_split)


subsection \<open>The outputs are subsequences of the input words\<close>

lemma subseq_drop_self: "subseq (drop n xs) xs"
  by (simp add: suffix_drop suffix_imp_subseq)

lemma length_join_subseq: "subseq xs ys \<Longrightarrow> length (join sep xs) \<le> length (join sep ys)"
proof (induction rule: list_emb.induct)
  case (list_emb_Nil ys)
  show ?case by simp
next
  case (list_emb_Cons xs ys y)
  then show ?case by (cases ys) (auto simp: join_Cons)
next
  case (list_emb_Cons2 x y xs ys)
  then have "xs \<noteq> [] \<Longrightarrow> ys \<noteq> []" by auto
  with list_emb_Cons2 show ?case by (auto simp: join_Cons)
qed

lemma list_all_subseq: "subseq xs ys \<Longrightarrow> list_all P ys \<Longrightarrow> list_all P xs"
  by (induction rule: list_emb.induct) auto

lemma subseq_collapse_retained: "subseq (collapse_retained r ws) ws"
proof (induction ws arbitrary: r)
  case Nil
  show ?case by simp
next
  case (Cons w ws)
  show ?case by (cases r) (auto simp: Cons.IH)
qed

lemma subseq_pattern_spec: "subseq (pattern_spec ws) ws"
proof (induction ws rule: pattern_spec.induct)
  case (1 ws)
  show ?case
  proof (cases "ws = []")
    case True
    then show ?thesis by (subst pattern_spec.simps) simp
  next
    case ne: False
    show ?thesis
    proof (cases "first_repeat ws")
      case None
      then have "pattern_spec ws = hd ws # pattern_spec (tl ws)"
        using ne by (subst pattern_spec.simps) simp
      moreover have "subseq (pattern_spec (tl ws)) (tl ws)" using "1.IH"(1)[OF ne None] .
      ultimately show ?thesis using ne by (cases ws) auto
    next
      case (Some L)
      define m where "m = L * (1 + count_blocks (take L ws) (drop L ws))"
      have eq: "pattern_spec ws = take L ws @ pattern_spec (drop m ws)"
        using ne Some by (subst pattern_spec.simps) (simp add: m_def)
      have "subseq (pattern_spec (drop m ws)) (drop m ws)"
        using "1.IH"(2)[OF ne Some] by (simp add: m_def)
      moreover have "drop m ws = drop (m - L) (drop L ws)" by (simp add: m_def add.commute)
      then have "subseq (drop m ws) (drop L ws)" by (simp only: subseq_drop_self)
      ultimately have "subseq (pattern_spec (drop m ws)) (drop L ws)"
        by (rule subseq_order.trans)
      then have "subseq (take L ws @ pattern_spec (drop m ws)) (take L ws @ drop L ws)"
        by (simp only: subseq_append')
      then show ?thesis by (simp add: eq)
    qed
  qed
qed

lemma removeAdjacentDuplicates_collapse:
  "removeAdjacentDuplicates text = join '' '' (collapse_retained None (words_of text))"
  using removeAdjacentDuplicates_loop_retained[of 0 "words_of text" None "[]"]
  by (simp add: removeAdjacentDuplicates_def)

lemma join_subseq_words:
  assumes "subseq ws' (words_of text)"
  shows "length (words_of (join '' '' ws')) \<le> length (words_of text)"
    and "length (join '' '' ws') \<le> length text"
proof -
  have "list_all is_word ws'" using assms words_of_is_word by (rule list_all_subseq)
  then have "words_of (join '' '' ws') = ws'" by (rule words_of_join)
  then show "length (words_of (join '' '' ws')) \<le> length (words_of text)"
    using assms by (simp add: list_emb_length)
  have "length (join '' '' ws') \<le> length (join '' '' (words_of text))"
    using assms by (rule length_join_subseq)
  also have "\<dots> \<le> length text" by (rule length_join_words_of)
  finally show "length (join '' '' ws') \<le> length text" .
qed

lemma sentence_loop_length:
  "length (fst (sentence_loop ss (u, seen))) \<le> length u + length ss"
proof (induction ss arbitrary: u seen)
  case Nil
  show ?case by simp
next
  case (Cons s ss)
  show ?case
    using Cons.IH[of "u @ [js_trim s]" "set_add seen (fingerprint s)"] Cons.IH[of u seen]
    by (auto simp: Let_def)
qed

subsection \<open>Blank texts\<close>

lemma is_space_not_terminal: "is_space c \<Longrightarrow> \<not> is_terminal c"
  by (auto simp: is_space_def is_terminal_def)

lemma js_trim_blank: "list_all is_space s \<Longrightarrow> js_trim s = []"
proof -
  assume "list_all is_space s"
  then have "dropWhile is_space s = []" by (simp add: list_all_iff)
  then show ?thesis unfolding js_trim_def by (simp only: rev.simps dropWhile.simps)
qed

lemma words_of_blank: "list_all is_space text \<Longrightarrow> words_of text = []"
proof (cases "text")
  case Nil
  then show ?thesis by (simp add: words_of_Nil)
next
  case (Cons c cs)
  assume blank: "list_all is_space text"
  then have dw: "dropWhile is_space text = []" by (simp add: list_all_iff)
  have c: "is_space c" using blank Cons by simp
  have t: "takeWhile (\<lambda>c. \<not> is_space c) text = []" using c Cons by simp
  have d: "dropWhile (\<lambda>c. \<not> is_space c) text = text" using c Cons by simp
  have "dropWhile (\<lambda>c. \<not> is_space c) text \<noteq> []" using d Cons by simp
  from js_split_more[OF this] have "js_split is_space text = [[], []]"
    by (simp only: t d dw) (simp add: js_split_last)
  then show ?thesis by (simp add: words_of_def)
qed

lemma sentences_of_blank: "list_all is_space text \<Longrightarrow> sentences_of text = []"
proof -
  assume blank: "list_all is_space text"
  then have "\<forall>c\<in>set text. \<not> is_terminal c"
    by (auto simp: list_all_iff dest: is_space_not_terminal)
  then have "js_split is_terminal text = [text]" by (rule js_split_word_only)
  then show ?thesis using js_trim_blank[OF blank] by (simp add: sentences_of_def)
qed

lemma set_collapse_ws: "set (collapse_ws s) \<subseteq> insert (CHR '' '') (set s)"
proof (induction s rule: collapse_ws.induct)
  case 1
  show ?case by simp
next
  case (2 c cs)
  show ?case
  proof (cases "is_space c")
    case True
    have "set (dropWhile is_space cs) \<subseteq> set cs" by (auto dest: set_dropWhileD)
    with "2.IH"(1)[OF True] True show ?thesis by auto
  next
    case False
    with "2.IH"(2)[OF False] show ?thesis by auto
  qed
qed

lemma removeDuplicateText_blank:
  assumes "list_all (list_all is_space) textLines"
  shows "removeDuplicateText textLines = []"
proof -
  have sp: "is_space CHR '' ''" by (simp add: is_space_def)
  have "set (join '' '' textLines) \<subseteq> set '' '' \<union> \<Union> (set ` set textLines)" by (rule set_join)
  then have "\<forall>c\<in>set (join '' '' textLines). is_space c"
    using assms sp by (auto simp: list_all_iff)
  then have "\<forall>c\<in>set (collapse_ws (join '' '' textLines)). is_space c"
    using set_collapse_ws[of "join '' '' textLines"] sp by auto
  then have "js_trim (collapse_ws (join '' '' textLines)) = []"
    by (intro js_trim_blank) (simp add: list_all_iff)
  then show ?thesis by (simp add: removeDuplicateText_def)
qed

subsection \<open>The shape of the pipeline's output\<close>

lemma collapse_ws_word_prefix:
  "\<forall>c\<in>set w. \<not> is_space c \<Longrightarrow> collapse_ws (w @ rest) = w @ collapse_ws rest"
  by (induction w) simp_all

lemma collapse_ws_join: "list_all is_word ws \<Longrightarrow> collapse_ws (join '' '' ws) = join '' '' ws"
proof (induction ws)
  case Nil
  show ?case by simp
next
  case (Cons w ws)
  then have w: "\<forall>c\<in>set w. \<not> is_space c" by (auto simp: is_word_def)
  show ?case
  proof (cases ws)
    case Nil
    then show ?thesis using collapse_ws_word_prefix[OF w, of "[]"] by simp
  next
    case (Cons y ys)
    define J where "J = join '' '' ws"
    have J: "J \<noteq> []" "\<not> is_space (hd J)"
      using join_words_head[of y ys] Cons.prems Cons by (auto simp: J_def)
    then have dw: "dropWhile is_space J = J" by (cases J) auto
    have sp: "is_space CHR '' ''" by (simp add: is_space_def)
    have IH: "collapse_ws J = J" using Cons.IH Cons.prems by (simp add: J_def)
    have "join '' '' (w # ws) = w @ CHR '' '' # J" using Cons by (simp add: J_def)
    moreover have "collapse_ws (w @ CHR '' '' # J) = w @ CHR '' '' # J"
      using collapse_ws_word_prefix[OF w, of "CHR '' '' # J"] sp dw IH by simp
    ultimately show ?thesis by simp
  qed
qed

lemma js_trim_id: "s \<noteq> [] \<Longrightarrow> \<not> is_space (hd s) \<Longrightarrow> \<not> is_space (last s) \<Longrightarrow> js_trim s = s"
proof -
  assume s: "s \<noteq> []" and h: "\<not> is_space (hd s)" and l: "\<not> is_space (last s)"
  from s h have "dropWhile is_space s = s" by (cases s) auto
  moreover from s l have "dropWhile is_space (rev s) = rev s"
    by (cases "rev s") (auto simp: last_rev hd_rev[symmetric] dest: arg_cong[where f = hd])
  ultimately show ?thesis by (simp add: js_trim_def)
qed

lemma join_words_last:
  "list_all is_word ws \<Longrightarrow> ws \<noteq> [] \<Longrightarrow> \<not> is_space (last (join '' '' ws))"
proof (induction ws)
  case Nil
  then show ?case by simp
next
  case (Cons w ws)
  show ?case
  proof (cases ws)
    case Nil
    with Cons.prems show ?thesis by (auto simp: is_word_def)
  next
    case (Cons y ys)
    then have "join '' '' ws \<noteq> []" using join_words_head[of y ys] Cons.prems by simp
    then show ?thesis using Cons.IH Cons.prems Cons by (simp add: join_Cons)
  qed
qed

lemma js_trim_join: "list_all is_word ws \<Longrightarrow> js_trim (join '' '' ws) = join '' '' ws"
proof (cases ws)
  case Nil
  then show ?thesis by (simp add: js_trim_def)
next
  case (Cons w ws')
  assume "list_all is_word ws"
  then show ?thesis
    using join_words_head[of w ws'] join_words_last[of ws] Cons by (intro js_trim_id) auto
qed

lemma collapse_retained_idem_Some:
  "collapse_retained (Some r) (collapse_retained (Some r) ws) = collapse_retained (Some r) ws"
  by (induction ws arbitrary: r) auto

lemma collapse_retained_idem:
  "collapse_retained None (collapse_retained None ws) = collapse_retained None ws"
  by (cases ws) (simp_all add: collapse_retained_idem_Some)

lemma removeAdjacentDuplicates_shape:
  "\<exists>ws. list_all is_word ws \<and> collapse_retained None ws = ws \<and>
        removeAdjacentDuplicates text = join '' '' ws"
proof -
  define ws where "ws = collapse_retained None (words_of text)"
  have "list_all is_word ws"
    unfolding ws_def using subseq_collapse_retained words_of_is_word by (rule list_all_subseq)
  moreover have "collapse_retained None ws = ws" by (simp add: ws_def collapse_retained_idem)
  moreover have "removeAdjacentDuplicates text = join '' '' ws"
    by (simp add: removeAdjacentDuplicates_collapse ws_def)
  ultimately show ?thesis by blast
qed

lemma removeDuplicateText_shape:
  "\<exists>ws. list_all is_word ws \<and> collapse_retained None ws = ws \<and>
        removeDuplicateText d = join '' '' ws"
proof (cases "removeDuplicateText d = []")
  case True
  then have "list_all is_word [] \<and> collapse_retained None [] = [] \<and>
      removeDuplicateText d = join '' '' []" by simp
  then show ?thesis by blast
next
  case False
  then have "removeDuplicateText d = removeAdjacentDuplicates (removeSentenceRepeats
      (removePatternRepeats (js_trim (collapse_ws (js_trim (collapse_ws (join '' '' d)))))))"
    by (auto simp: removeDuplicateText_def Let_def split: if_splits)
  then show ?thesis using removeAdjacentDuplicates_shape by simp
qed

section \<open>The claims\<close>

subsection \<open>C5: the triple repeat\<close>

text \<open>
  Claim C5. On the one-line document
  \<open>the market is up today. the market is up today. the market is up today. volatility remains high.\<close>
  the whole pipeline \<open>removeDuplicateText\<close> returns exactly
  \<open>the market is up today. volatility remains high.\<close>
\<close>

theorem C5_triple_repeat_collapse:
  "removeDuplicateText
     [''the market is up today. the market is up today. the market is up today. volatility remains high.'']
   = ''the market is up today. volatility remains high.''"
  by code_simp

subsection \<open>C7: the adjacent duplicate collapser\<close>

text \<open>
  Claim C7. On every word stream the loop of \<open>removeAdjacentDuplicates\<close>, which compares
  each word with the word before it in the input, returns what the contract describes:
  the first token is retained, and a later token is dropped if and only if it equals,
  ignoring case, the token retained last. The first token of the output is the first
  token of the input, and the tokens \<open>the The cat sat\<close> give \<open>the cat sat\<close>.
\<close>

theorem C7_adjacent_collapser:
  "removeAdjacentDuplicates_loop ws 0 [] = collapse_retained None ws \<and>
   take 1 (removeAdjacentDuplicates_loop ws 0 []) = take 1 ws \<and>
   removeAdjacentDuplicates_loop [''the'', ''The'', ''cat'', ''sat''] 0 [] = [''the'', ''cat'', ''sat'']"
proof -
  have eq: "removeAdjacentDuplicates_loop ws 0 [] = collapse_retained None ws" for ws
    using removeAdjacentDuplicates_loop_retained[of 0 ws None "[]"] by simp
  have "removeAdjacentDuplicates_loop [''the'', ''The'', ''cat'', ''sat''] 0 [] = [''the'', ''cat'', ''sat'']"
    by code_simp
  then show ?thesis using eq collapse_retained_first by simp
qed

subsection \<open>C8: the similarity scorer\<close>

text \<open>
  Claim C8. For all token sequences \<open>a\<close> and \<open>b\<close> the scorer returns the number of
  positions below the shorter length at which they agree, divided by the longer length,
  and 1 for two empty sequences. Two empty strings score 1 as well: each splits into one
  empty token.
\<close>

theorem C8_similarity_scorer:
  "calculateSimilarity_words a b =
     (if a = [] \<and> b = [] then 1
      else of_nat (card {i. i < min (length a) (length b) \<and> a ! i = b ! i})
           / of_nat (max (length a) (length b))) \<and>
   calculateSimilarity_words [] [] = 1 \<and> calculateSimilarity [] [] = 1"
proof -
  have "calculateSimilarity [] [] = 1" by code_simp
  then show ?thesis
    by (auto simp: calculateSimilarity_words_def Let_def similarity_loop_card)
qed

subsection \<open>C10: sentence marks in the output of the sentence stage\<close>

text \<open>
  Claim C10. When the input of \<open>removeSentenceRepeats\<close> splits into at least two non-empty
  sentence fragments, the output is the kept sentences joined by a period and a space,
  with one period appended when a sentence is kept; every exclamation mark and
  question mark of the input is gone from the output.
\<close>

theorem C10_terminal_marks_become_periods:
  assumes "2 \<le> length (sentences_of text)"
  shows "removeSentenceRepeats text =
           join ''. '' (fst (sentence_loop (sentences_of text) ([], []))) @
           (if fst (sentence_loop (sentences_of text) ([], [])) = [] then [] else ''.'') \<and>
         CHR ''!'' \<notin> set (removeSentenceRepeats text) \<and>
         CHR ''?'' \<notin> set (removeSentenceRepeats text)"
proof -
  have "removeSentenceRepeats text =
           join ''. '' (fst (sentence_loop (sentences_of text) ([], []))) @
           (if fst (sentence_loop (sentences_of text) ([], [])) = [] then [] else ''.'')"
    using assms by (simp add: removeSentenceRepeats_def Let_def)
  moreover have "CHR ''!'' \<notin> set (removeSentenceRepeats text)"
    using assms by (rule removeSentenceRepeats_chars) (simp_all add: is_terminal_def)
  moreover have "CHR ''?'' \<notin> set (removeSentenceRepeats text)"
    using assms by (rule removeSentenceRepeats_chars) (simp_all add: is_terminal_def)
  ultimately show ?thesis by simp
qed

theorem C10_terminal_marks_become_periods_witness:
  "2 \<le> length (sentences_of ''did the market rise? yes the market rose! volatility remains high'') \<and>
   removeSentenceRepeats ''did the market rise? yes the market rose! volatility remains high''
     = ''did the market rise. yes the market rose. volatility remains high.'' \<and>
   CHR ''!'' \<notin> set (removeSentenceRepeats ''did the market rise? yes the market rose! volatility remains high'') \<and>
   CHR ''?'' \<notin> set (removeSentenceRepeats ''did the market rise? yes the market rose! volatility remains high'')"
proof -
  have h: "2 \<le> length (sentences_of ''did the market rise? yes the market rose! volatility remains high'')"
    by code_simp
  have v: "removeSentenceRepeats ''did the market rise? yes the market rose! volatility remains high''
     = ''did the market rise. yes the market rose. volatility remains high.''"
    by code_simp
  from C10_terminal_marks_become_periods[OF h] h v show ?thesis by blast
qed

subsection \<open>C2: what decides whether a sentence is dropped\<close>

text \<open>
  Claim C2 says that the fingerprint is only a first probe and that the decision rests
  on the positional word overlap of the two complete sentences. The code never compares
  complete sentences. In the input below the second sentence has six content words and
  agrees with the first at no position, yet it is dropped: its first five content words
  are those of the first sentence.
\<close>

theorem C2_counterexample:
  "removeSentenceRepeats ''we alpha beta gamma delta rose. alpha beta gamma delta rose up to a high.''
     = ''we alpha beta gamma delta rose.'' \<and>
   3 \<le> length (content_words '' alpha beta gamma delta rose up to a high'') \<and>
   calculateSimilarity ''alpha beta gamma delta rose up to a high'' ''we alpha beta gamma delta rose'' = 0"
  by code_simp

text \<open>
  Claim C2, amended. A text with at most one non-empty sentence fragment is returned
  unchanged, whatever its sentence. When the text splits into two fragments or more, the
  fingerprint comparison is the whole decision: the output is the input sentences,
  trimmed, at the positions that \<open>fingerprint_keep\<close> marks, joined by a period and a
  space, with a period appended when one is kept; \<open>fingerprint_keep\<close> sees only the
  fingerprints and the flag for three content words. A sentence is then dropped exactly
  when it has fewer than three content words or its fingerprint scores more than 0.8
  against the fingerprint of a sentence kept before it. The same holds of the loop on
  every list of sentences.
\<close>

theorem C2_decision_by_fingerprint:
  "fst (sentence_loop sentences ([], [])) =
     map (js_trim \<circ> fst)
       (filter snd (zip sentences (fingerprint_keep
          (map (\<lambda>s. (fingerprint s, 3 \<le> length (content_words s))) sentences) []))) \<and>
   removeSentenceRepeats text =
     (if length (sentences_of text) \<le> 1 then text
      else join ''. ''
             (map (js_trim \<circ> fst)
               (filter snd (zip (sentences_of text) (fingerprint_keep
                  (map (\<lambda>s. (fingerprint s, 3 \<le> length (content_words s)))
                     (sentences_of text)) [])))) @
           (if filter snd (zip (sentences_of text) (fingerprint_keep
                  (map (\<lambda>s. (fingerprint s, 3 \<le> length (content_words s)))
                     (sentences_of text)) [])) = []
            then [] else ''.''))"
proof -
  have loop: "fst (sentence_loop ss ([], [])) =
     map (js_trim \<circ> fst)
       (filter snd (zip ss (fingerprint_keep
          (map (\<lambda>s. (fingerprint s, 3 \<le> length (content_words s))) ss) [])))" for ss
    using sentence_loop_fingerprint_keep[of ss "[]" "[]"] by simp
  have stage: "removeSentenceRepeats text =
     (if length (sentences_of text) \<le> 1 then text
      else join ''. '' (fst (sentence_loop (sentences_of text) ([], []))) @
           (if fst (sentence_loop (sentences_of text) ([], [])) = [] then [] else ''.''))"
    by (simp add: removeSentenceRepeats_def Let_def)
  show ?thesis unfolding stage by (simp add: loop)
qed

subsection \<open>C3: near-duplicate sentences\<close>

text \<open>
  Claim C3 says that a later sentence whose overlap with a kept sentence is at least 0.8
  is dropped, and names a pair that overlaps at 4/5. The test of the code is
  \<open>similarity > 0.8\<close>: at exactly 0.8 the sentence is kept, and the stage returns the pair
  as it was.
\<close>

theorem C3_counterexample:
  "calculateSimilarity ''revenue grew sharply last quarter'' ''revenue grew sharply this quarter'' = 8 / 10 \<and>
   removeSentenceRepeats ''revenue grew sharply this quarter. revenue grew sharply last quarter.''
     = ''revenue grew sharply this quarter. revenue grew sharply last quarter.''"
  by code_simp

text \<open>
  Claim C3, amended. A later sentence is dropped when the positional overlap of its
  fingerprint with the fingerprint of some sentence kept before it is strictly greater
  than 0.8: processing it leaves the kept sentences and the seen fingerprints as they
  were.
\<close>

theorem C3_near_duplicate_dropped:
  assumes "sentence_loop earlier ([], []) = (uniqueSentences, seenSentences)"
    and "kept \<in> set uniqueSentences"
    and "calculateSimilarity (fingerprint sentence) (fingerprint kept) > 8 / 10"
  shows "sentence_loop (earlier @ [sentence]) ([], []) = (uniqueSentences, seenSentences)"
proof -
  have "fingerprint ` set uniqueSentences \<subseteq> set seenSentences"
    using sentence_loop_fingerprints[OF _ assms(1)] by simp
  with assms(2) have "fingerprint kept \<in> set seenSentences" by auto
  with assms(3) have "seen_loop (fingerprint sentence) seenSentences"
    by (auto simp: seen_loop_iff list_ex_iff)
  then show ?thesis
    by (simp add: sentence_loop_append assms(1) Let_def)
qed

theorem C3_near_duplicate_dropped_witness:
  "sentence_loop [''revenue grew sharply this quarter''] ([], [])
     = ([''revenue grew sharply this quarter''], [''revenue grew sharply this quarter'']) \<and>
   calculateSimilarity (fingerprint '' revenue grew sharply this quarter again'')
     (fingerprint ''revenue grew sharply this quarter'') > 8 / 10 \<and>
   sentence_loop [''revenue grew sharply this quarter'', '' revenue grew sharply this quarter again''] ([], [])
     = ([''revenue grew sharply this quarter''], [''revenue grew sharply this quarter''])"
proof -
  have a: "sentence_loop [''revenue grew sharply this quarter''] ([], [])
     = ([''revenue grew sharply this quarter''], [''revenue grew sharply this quarter''])"
    by code_simp
  have b: "''revenue grew sharply this quarter'' \<in> set [''revenue grew sharply this quarter'']"
    by simp
  have c: "calculateSimilarity (fingerprint '' revenue grew sharply this quarter again'')
     (fingerprint ''revenue grew sharply this quarter'') > 8 / 10"
    by code_simp
  from C3_near_duplicate_dropped[OF a b c] a c show ?thesis by simp
qed

subsection \<open>C6: the pattern repeat eliminator\<close>

text \<open>
  Claim C6. A text of fewer than four tokens is returned unchanged. On four tokens or
  more the three nested loops of \<open>removePatternRepeats\<close> compute the single forward pass
  of the specification, \<open>pattern_spec\<close>: at each cursor the candidate lengths run from
  \<open>min(20, floor(remaining / 2))\<close> down to 2, the first length whose pattern is followed by
  at least one block of match ratio 0.85 or more wins, the pattern is emitted once and
  the cursor skips every matched repeat; with no such length one token is emitted.
\<close>

theorem C6_pattern_repeat_eliminator:
  "removePatternRepeats text =
     (if length (words_of text) < 4 then text
      else join '' '' (pattern_spec (words_of text)))"
  by (simp add: removePatternRepeats_def Let_def pattern_while_spec)

subsection \<open>C4: non-growth\<close>

text \<open>
  Claim C4 says that every stage and the whole pipeline return no more tokens and no
  more characters than they read. The sentence stage rejoins the kept sentences with a
  period and a space and appends a period: on the input below, whose period has no
  space after it, it returns 6 tokens for 5 and 25 characters for 23, and so does the
  pipeline.
\<close>

theorem C4_counterexample:
  "length (words_of ''aaa bbb ccc.ddd eee fff'') = 5 \<and>
   length (words_of (removeSentenceRepeats ''aaa bbb ccc.ddd eee fff'')) = 6 \<and>
   length ''aaa bbb ccc.ddd eee fff'' = 23 \<and>
   length (removeSentenceRepeats ''aaa bbb ccc.ddd eee fff'') = 25 \<and>
   removeDuplicateText [''aaa bbb ccc.ddd eee fff''] = ''aaa bbb ccc. ddd eee fff.'' \<and>
   length (words_of (removeDuplicateText [''aaa bbb ccc.ddd eee fff''])) = 6 \<and>
   length (removeDuplicateText [''aaa bbb ccc.ddd eee fff'']) = 25"
  by code_simp

text \<open>
  Claim C4, amended. The pattern repeat eliminator and the adjacent duplicate collapser
  return, on every input, at most as many tokens and at most as many characters as they
  read; the sentence repeat eliminator keeps at most as many sentences as its input
  has. Nothing is said of the token count or the length of the sentence stage's output
  or of the pipeline's.
\<close>

theorem C4_non_growth:
  "length (words_of (removePatternRepeats text)) \<le> length (words_of text) \<and>
   length (removePatternRepeats text) \<le> length text \<and>
   length (words_of (removeAdjacentDuplicates text)) \<le> length (words_of text) \<and>
   length (removeAdjacentDuplicates text) \<le> length text \<and>
   length (fst (sentence_loop (sentences_of text) ([], []))) \<le> length (sentences_of text)"
proof -
  have p: "subseq (pattern_spec (words_of text)) (words_of text)" by (rule subseq_pattern_spec)
  have a: "subseq (collapse_retained None (words_of text)) (words_of text)"
    by (rule subseq_collapse_retained)
  have "length (words_of (removePatternRepeats text)) \<le> length (words_of text)"
    using join_subseq_words(1)[OF p] by (simp add: removePatternRepeats_def Let_def pattern_while_spec)
  moreover have "length (removePatternRepeats text) \<le> length text"
    using join_subseq_words(2)[OF p] by (simp add: removePatternRepeats_def Let_def pattern_while_spec)
  moreover have "length (words_of (removeAdjacentDuplicates text)) \<le> length (words_of text)"
    using join_subseq_words(1)[OF a] by (simp add: removeAdjacentDuplicates_collapse)
  moreover have "length (removeAdjacentDuplicates text) \<le> length text"
    using join_subseq_words(2)[OF a] by (simp add: removeAdjacentDuplicates_collapse)
  moreover have "length (fst (sentence_loop (sentences_of text) ([], []))) \<le> length (sentences_of text)"
    using sentence_loop_length[of "sentences_of text" "[]" "[]"] by simp
  ultimately show ?thesis by simp
qed

subsection \<open>C9: empty and blank input\<close>

text \<open>
  Claim C9 says that every stage turns an empty or blank input into an empty result. The
  pattern stage and the sentence stage return a text of fewer than four tokens, or of at
  most one sentence, as it is: three spaces come back as three spaces, not as the empty
  string.
\<close>

theorem C9_counterexample:
  "list_all is_space ''   '' \<and>
   removePatternRepeats ''   '' = ''   '' \<and> removePatternRepeats ''   '' \<noteq> [] \<and>
   removeSentenceRepeats ''   '' = ''   '' \<and> removeSentenceRepeats ''   '' \<noteq> []"
  by code_simp

text \<open>
  Claim C9, amended. On an empty or blank text the pattern repeat eliminator and the
  sentence repeat eliminator return the text unchanged (the empty string for the empty
  string), the adjacent duplicate collapser returns the empty string, and the pipeline
  returns the empty string on lines that are all empty or blank. The functions of the
  embedding are total, as the source has no \<open>throw\<close> on these paths.
\<close>

theorem C9_blank_input:
  assumes "list_all is_space text" and "list_all (list_all is_space) textLines"
  shows "removePatternRepeats text = text \<and>
         removeSentenceRepeats text = text \<and>
         removeAdjacentDuplicates text = [] \<and>
         removeDuplicateText textLines = []"
proof -
  have "removePatternRepeats text = text"
    using words_of_blank[OF assms(1)] by (simp add: removePatternRepeats_def)
  moreover have "removeSentenceRepeats text = text"
    using sentences_of_blank[OF assms(1)] by (simp add: removeSentenceRepeats_def)
  moreover have "removeAdjacentDuplicates text = []"
    using words_of_blank[OF assms(1)] by (simp add: removeAdjacentDuplicates_collapse)
  moreover have "removeDuplicateText textLines = []"
    using assms(2) by (rule removeDuplicateText_blank)
  ultimately show ?thesis by simp
qed

theorem C9_blank_input_witness:
  "list_all is_space [CHR '' '', CHR 0x09] \<and>
   list_all (list_all is_space) [[], [CHR '' '', CHR 0x09], '' ''] \<and>
   removePatternRepeats [CHR '' '', CHR 0x09] = [CHR '' '', CHR 0x09] \<and>
   removeSentenceRepeats [CHR '' '', CHR 0x09] = [CHR '' '', CHR 0x09] \<and>
   removeAdjacentDuplicates [CHR '' '', CHR 0x09] = [] \<and>
   removeDuplicateText [[], [CHR '' '', CHR 0x09], '' ''] = []"
proof -
  have a: "list_all is_space [CHR '' '', CHR 0x09]" by code_simp
  have b: "list_all (list_all is_space) [[], [CHR '' '', CHR 0x09], '' '']" by code_simp
  from C9_blank_input[OF a b] a b show ?thesis by blast
qed

subsection \<open>C1: running the pipeline twice\<close>

text \<open>
  Claim C1 says that the pipeline is idempotent on every document. Each stage runs
  once, in a fixed order, and a later stage can leave a repeat that an earlier stage
  would remove: on \<open>x a a b x a b\<close> the pattern stage finds nothing, the last stage
  removes the doubled \<open>a\<close>, and the first run returns \<open>x a b x a b\<close>, which the pattern
  stage of a second run collapses to \<open>x a b\<close>.
\<close>

theorem C1_counterexample:
  "removeDuplicateText [''x a a b x a b''] = ''x a b x a b'' \<and>
   removeDuplicateText [removeDuplicateText [''x a a b x a b'']] = ''x a b'' \<and>
   removeDuplicateText [removeDuplicateText [''x a a b x a b'']] \<noteq> removeDuplicateText [''x a a b x a b'']"
  by code_simp

text \<open>
  Claim C1, amended. The output of the pipeline is always a fixed point of the adjacent
  duplicate collapser, and a second run of the pipeline returns the output of the first
  whenever that output is also a fixed point of the pattern repeat eliminator and of the
  sentence repeat eliminator.
\<close>

theorem C1_second_run:
  "removeAdjacentDuplicates (removeDuplicateText d) = removeDuplicateText d \<and>
   (removePatternRepeats (removeDuplicateText d) = removeDuplicateText d \<and>
    removeSentenceRepeats (removeDuplicateText d) = removeDuplicateText d
    \<longrightarrow> removeDuplicateText [removeDuplicateText d] = removeDuplicateText d)"
proof -
  define p where "p = removeDuplicateText d"
  obtain ws where ws: "list_all is_word ws" "collapse_retained None ws = ws" "p = join '' '' ws"
    using removeDuplicateText_shape[of d] unfolding p_def by blast
  have adj: "removeAdjacentDuplicates p = p"
    using ws by (simp add: removeAdjacentDuplicates_collapse words_of_join)
  have norm: "js_trim (collapse_ws p) = p"
    using ws by (simp add: collapse_ws_join js_trim_join)
  have "removeDuplicateText [p] = p"
    if "removePatternRepeats p = p" and "removeSentenceRepeats p = p"
    using that adj norm by (simp add: removeDuplicateText_def Let_def)
  with adj show ?thesis unfolding p_def by blast
qed

theorem C1_second_run_witness:
  "removeDuplicateText
     [''the market is up today. the market is up today. the market is up today. volatility remains high.'']
     = ''the market is up today. volatility remains high.'' \<and>
   removePatternRepeats ''the market is up today. volatility remains high.''
     = ''the market is up today. volatility remains high.'' \<and>
   removeSentenceRepeats ''the market is up today. volatility remains high.''
     = ''the market is up today. volatility remains high.'' \<and>
   removeDuplicateText [''the market is up today. volatility remains high.'']
     = ''the market is up today. volatility remains high.''"
proof -
  have v: "removeDuplicateText
     [''the market is up today. the market is up today. the market is up today. volatility remains high.'']
     = ''the market is up today. volatility remains high.''"
    by code_simp
  have a: "removePatternRepeats ''the market is up today. volatility remains high.''
     = ''the market is up today. volatility remains high.''"
    by code_simp
  have b: "removeSentenceRepeats ''the market is up today. volatility remains high.''
     = ''the market is up today. volatility remains high.''"
    by code_simp
  from C1_second_run[of "[''the market is up today. the market is up today. the market is up today. volatility remains high.'']"]
  show ?thesis unfolding v using a b by blast
qed

end
